theory Spec2Isabelle
  imports Main
begin

section \<open>ARP table reader: \<open>WebControl/mac2ip.py\<close>\<close>

text \<open>
  The script runs \<open>arp -a\<close>, splits the text it prints into lines, applies the regular
  expression \<open>(\d+\.\d+\.\d+\.\d+)\s+([-\w:]+)\<close> to every line with \<open>re.search\<close>, and
  normalises the second group with \<open>.lower().replace('-', ':')\<close>.

  The text printed by the command is the only input that is not an argument, so both
  functions take it as their first parameter \<open>arp_output\<close> (the value of
  \<open>os.popen('arp -a').read()\<close>).

  A Python \<open>str\<close> is a sequence of code points. A \<open>char\<close> stands for one code point in
  the range U+0000 .. U+00FF, read through \<open>of_char\<close>; the character classes below are
  the ones Python 3 uses for \<open>str\<close> patterns and methods on that range.
\<close>

subsection \<open>Character classes\<close>

text \<open>\<open>\d\<close>: the decimal digits. Below U+0100 these are \<open>0\<close> .. \<open>9\<close> only.\<close>

definition is_digit :: "char \<Rightarrow> bool" where
  "is_digit c = (let n = (of_char c :: nat) in 48 \<le> n \<and> n \<le> 57)"

text \<open>\<open>\w\<close>: alphanumeric code points and the underscore.\<close>

definition is_word :: "char \<Rightarrow> bool" where
  "is_word c = (let n = (of_char c :: nat) in
      (48 \<le> n \<and> n \<le> 57) \<or> (65 \<le> n \<and> n \<le> 90) \<or> n = 95 \<or> (97 \<le> n \<and> n \<le> 122) \<or>
      n = 170 \<or> n = 178 \<or> n = 179 \<or> n = 181 \<or> n = 185 \<or> n = 186 \<or>
      (188 \<le> n \<and> n \<le> 190) \<or> (192 \<le> n \<and> n \<le> 214) \<or> (216 \<le> n \<and> n \<le> 246) \<or>
      (248 \<le> n \<and> n \<le> 255))"

text \<open>\<open>\s\<close>: white space.\<close>

definition is_space :: "char \<Rightarrow> bool" where
  "is_space c = (let n = (of_char c :: nat) in
      (9 \<le> n \<and> n \<le> 13) \<or> (28 \<le> n \<and> n \<le> 32) \<or> n = 133 \<or> n = 160)"

text \<open>The character set \<open>[-\w:]\<close>.\<close>

definition is_mac_char :: "char \<Rightarrow> bool" where
  "is_mac_char c = (c = CHR ''-'' \<or> is_word c \<or> c = CHR '':'')"

text \<open>The line boundaries of \<open>str.splitlines\<close>.\<close>

definition is_linebreak :: "char \<Rightarrow> bool" where
  "is_linebreak c = (let n = (of_char c :: nat) in
      (10 \<le> n \<and> n \<le> 13) \<or> (28 \<le> n \<and> n \<le> 30) \<or> n = 133)"

subsection \<open>String methods\<close>

text \<open>
  \<open>str.lower\<close>, one code point at a time: the upper-case letters move up by 32. On the
  range U+0000 .. U+00FF \<open>str.lower\<close> maps each code point to one code point; beyond it
  this is no longer so (the lower case of U+0130 is two code points), and such text is not
  covered here.
\<close>

definition lower_char :: "char \<Rightarrow> char" where
  "lower_char c = (let n = (of_char c :: nat) in
      if (65 \<le> n \<and> n \<le> 90) \<or> (192 \<le> n \<and> n \<le> 214) \<or> (216 \<le> n \<and> n \<le> 222)
      then char_of (n + 32) else c)"

definition lower :: "string \<Rightarrow> string" where
  "lower s = map lower_char s"

text \<open>\<open>s.replace('-', ':')\<close>: both arguments are one character long.\<close>

definition replace_dash :: "string \<Rightarrow> string" where
  "replace_dash s = map (\<lambda>c. if c = CHR ''-'' then CHR '':'' else c) s"

text \<open>The expression \<open>x.lower().replace('-', ':')\<close>, applied to the query and to each token.\<close>

definition normalize_mac :: "string \<Rightarrow> string" where
  "normalize_mac s = replace_dash (lower s)"

text \<open>
  \<open>str.splitlines\<close>: a line ends at a line boundary, \<open>\r\n\<close> counts as one boundary, and
  there is no empty last line. \<open>cur\<close> is the line being read.
\<close>

fun splitlines_from :: "string \<Rightarrow> string \<Rightarrow> string list" where
  "splitlines_from cur [] = (if cur = [] then [] else [cur])"
| "splitlines_from cur (c # cs) =
     (if c = CHR 0x0D then
        (case cs of
           [] \<Rightarrow> [cur]
         | d # ds \<Rightarrow> if d = CHR 0x0A then cur # splitlines_from [] ds
                    else cur # splitlines_from [] (d # ds))
      else if is_linebreak c then cur # splitlines_from [] cs
      else splitlines_from (cur @ [c]) cs)"

definition splitlines :: "string \<Rightarrow> string list" where
  "splitlines s = splitlines_from [] s"

subsection \<open>The regular expression\<close>

text \<open>
  The pattern is a sequence of atoms, each either one literal character or a greedy
  repetition \<open>X+\<close> of a character class. Matching backtracks the way \<open>re\<close> does: a
  repetition first takes the longest run and gives characters back one at a time until the
  rest of the pattern matches. The result lists the text matched by each atom.
\<close>

datatype atom = Lit char | Plus "char \<Rightarrow> bool"

fun try_plus :: "(string \<Rightarrow> string list option) \<Rightarrow> string \<Rightarrow> nat \<Rightarrow> string list option" where
  "try_plus cont s 0 = None"
| "try_plus cont s (Suc k) =
     (case cont (drop (Suc k) s) of
        Some ps \<Rightarrow> Some (take (Suc k) s # ps)
      | None \<Rightarrow> try_plus cont s k)"

fun match_atoms :: "atom list \<Rightarrow> string \<Rightarrow> string list option" where
  "match_atoms [] s = Some []"
| "match_atoms (Lit c # as) [] = None"
| "match_atoms (Lit c # as) (x # xs) =
     (if x = c then map_option ((#) [x]) (match_atoms as xs) else None)"
| "match_atoms (Plus p # as) s =
     try_plus (\<lambda>t. match_atoms as t) s (length (takeWhile p s))"

text \<open>\<open>re.search\<close>: the match at the leftmost position where the pattern matches.\<close>

fun re_search :: "atom list \<Rightarrow> string \<Rightarrow> string list option" where
  "re_search pat [] = match_atoms pat []"
| "re_search pat (c # cs) =
     (case match_atoms pat (c # cs) of
        Some ps \<Rightarrow> Some ps
      | None \<Rightarrow> re_search pat cs)"

text \<open>\<open>(\d+\.\d+\.\d+\.\d+)\s+([-\w:]+)\<close>\<close>

definition arp_pattern :: "atom list" where
  "arp_pattern =
     [Plus is_digit, Lit CHR ''.'', Plus is_digit, Lit CHR ''.'', Plus is_digit, Lit CHR ''.'',
      Plus is_digit, Plus is_space, Plus is_mac_char]"

text \<open>
  \<open>match.groups()\<close>: group 1 spans the first seven atoms, group 2 is the last atom.
\<close>

definition groups :: "string list \<Rightarrow> string \<times> string" where
  "groups ps = (concat (take 7 ps), concat (drop 8 ps))"

definition arp_search :: "string \<Rightarrow> (string \<times> string) option" where
  "arp_search line = map_option groups (re_search arp_pattern line)"

subsection \<open>The two functions\<close>

text \<open>The loop of \<open>get_ip_from_mac\<close>, which returns from inside at the first hit.\<close>

fun scan_lines :: "string \<Rightarrow> string list \<Rightarrow> string option" where
  "scan_lines target_mac [] = None"
| "scan_lines target_mac (line # rest) =
     (case arp_search line of
        None \<Rightarrow> scan_lines target_mac rest
      | Some (ip, mac) \<Rightarrow>
          if normalize_mac mac = target_mac then Some ip
          else scan_lines target_mac rest)"

definition get_ip_from_mac :: "string \<Rightarrow> string \<Rightarrow> string option" where
  "get_ip_from_mac arp_output target_mac =
     scan_lines (normalize_mac target_mac) (splitlines arp_output)"

text \<open>The loop of \<open>list_arp_table\<close>, appending to \<open>devices\<close>.\<close>

fun collect_lines :: "(string \<times> string) list \<Rightarrow> string list \<Rightarrow> (string \<times> string) list" where
  "collect_lines devices [] = devices"
| "collect_lines devices (line # rest) =
     (case arp_search line of
        None \<Rightarrow> collect_lines devices rest
      | Some (ip, mac) \<Rightarrow> collect_lines (devices @ [(ip, normalize_mac mac)]) rest)"

definition list_arp_table :: "string \<Rightarrow> (string \<times> string) list" where
  "list_arp_table arp_output = collect_lines [] (splitlines arp_output)"

subsection \<open>Reading the command's output\<close>

text \<open>
  \<open>os.popen('arp -a').read()\<close> reads the bytes the command writes and decodes them in
  text mode with the codec of the locale, in strict mode: where the codec rejects the bytes,
  \<open>read\<close> raises \<open>UnicodeDecodeError\<close>, and neither function catches it. The codec
  is not part of the script, so it is a parameter: it gives the text of a byte sequence, or
  nothing where it rejects the bytes. Bytes are natural numbers.
\<close>

datatype error = UnicodeDecodeError

type_synonym codec = "nat list \<Rightarrow> string option"

definition popen_read :: "codec \<Rightarrow> nat list \<Rightarrow> error + string" where
  "popen_read decode raw =
     (case decode raw of None \<Rightarrow> Inl UnicodeDecodeError | Some text \<Rightarrow> Inr text)"

text \<open>The two functions as they are called, on the bytes written by the command.\<close>

definition get_ip_from_mac_cmd :: "codec \<Rightarrow> nat list \<Rightarrow> string \<Rightarrow> error + string option" where
  "get_ip_from_mac_cmd decode raw target_mac =
     (case popen_read decode raw of
        Inl e \<Rightarrow> Inl e
      | Inr arp_output \<Rightarrow> Inr (get_ip_from_mac arp_output target_mac))"

definition list_arp_table_cmd :: "codec \<Rightarrow> nat list \<Rightarrow> error + (string \<times> string) list" where
  "list_arp_table_cmd decode raw =
     (case popen_read decode raw of
        Inl e \<Rightarrow> Inl e
      | Inr arp_output \<Rightarrow> Inr (list_arp_table arp_output))"

text \<open>The \<open>ascii\<close> codec: it rejects every byte above 127.\<close>

definition ascii_codec :: codec where
  "ascii_codec raw = (if list_all (\<lambda>b. b < 128) raw then Some (map char_of raw) else None)"

subsection \<open>Notions of the specification\<close>

text \<open>A non-empty run of decimal digits.\<close>

definition digits :: "string \<Rightarrow> bool" where
  "digits d = (d \<noteq> [] \<and> list_all is_digit d)"

text \<open>Four strings joined by dots.\<close>

definition quad :: "string \<Rightarrow> string \<Rightarrow> string \<Rightarrow> string \<Rightarrow> string" where
  "quad a b c d = a @ CHR ''.'' # b @ CHR ''.'' # c @ CHR ''.'' # d"

text \<open>The pieces of a string between its separator characters.\<close>

fun split_on :: "(char \<Rightarrow> bool) \<Rightarrow> string \<Rightarrow> string list" where
  "split_on sep [] = [[]]"
| "split_on sep (c # cs) =
     (if sep c then [] # split_on sep cs
      else (case split_on sep cs of [] \<Rightarrow> [[c]] | g # gs \<Rightarrow> (c # g) # gs))"

text \<open>A dotted quad: exactly four non-empty runs of decimal digits separated by dots.\<close>

definition dotted_quad :: "string \<Rightarrow> bool" where
  "dotted_quad ip =
     (let gs = split_on (\<lambda>c. c = CHR ''.'') ip in length gs = 4 \<and> list_all digits gs)"

text \<open>White space that does not end a line.\<close>

definition is_blank :: "char \<Rightarrow> bool" where
  "is_blank c = (is_space c \<and> \<not> is_linebreak c)"

text \<open>The pair one line contributes, if any.\<close>

definition parse_line :: "string \<Rightarrow> (string \<times> string) option" where
  "parse_line line = map_option (\<lambda>(ip, mac). (ip, normalize_mac mac)) (arp_search line)"

text \<open>The pairs of all lines of an output, in the order of the lines.\<close>

definition parsed_pairs :: "string \<Rightarrow> (string \<times> string) list" where
  "parsed_pairs arp_output = List.map_filter parse_line (splitlines arp_output)"

text \<open>
  The lookup in the specification's words: the IP of the first pair of the sequence whose
  MAC equals the given one, or nothing.
\<close>

fun lookup_first :: "(string \<times> string) list \<Rightarrow> string \<Rightarrow> string option" where
  "lookup_first [] m = None"
| "lookup_first ((ip, mac) # rest) m = (if mac = m then Some ip else lookup_first rest m)"

text \<open>Hexadecimal digits, and the lower-case ones.\<close>

definition is_lower_hex :: "char \<Rightarrow> bool" where
  "is_lower_hex c = (let n = (of_char c :: nat) in (48 \<le> n \<and> n \<le> 57) \<or> (97 \<le> n \<and> n \<le> 102))"

definition is_hex :: "char \<Rightarrow> bool" where
  "is_hex c = (let n = (of_char c :: nat) in
      (48 \<le> n \<and> n \<le> 57) \<or> (65 \<le> n \<and> n \<le> 70) \<or> (97 \<le> n \<and> n \<le> 102))"

text \<open>The canonical form \<open>xx:xx:xx:xx:xx:xx\<close>: six pairs of lower-case hexadecimal digits.\<close>

definition canonical_mac :: "string \<Rightarrow> bool" where
  "canonical_mac s =
     (let gs = split_on (\<lambda>c. c = CHR '':'') s in
      length gs = 6 \<and> list_all (\<lambda>g. length g = 2 \<and> list_all is_lower_hex g) gs)"

text \<open>A token made of hexadecimal groups separated by \<open>:\<close> or \<open>-\<close>.\<close>

definition hex_group_token :: "string \<Rightarrow> bool" where
  "hex_group_token tok =
     list_all (\<lambda>g. g \<noteq> [] \<and> list_all is_hex g)
       (split_on (\<lambda>c. c = CHR '':'' \<or> c = CHR ''-'') tok)"

text \<open>
  The spellings of a MAC address given by its bytes: \<open>up\<close> says which hexadecimal digits
  are written in upper case, \<open>dash\<close> which separators are \<open>-\<close> rather than \<open>:\<close>.
\<close>

definition hex_char :: "bool \<Rightarrow> nat \<Rightarrow> char" where
  "hex_char upper n =
     (if upper then ''0123456789ABCDEF'' ! n else ''0123456789abcdef'' ! n)"

fun spell_from :: "(nat \<Rightarrow> bool) \<Rightarrow> (nat \<Rightarrow> bool) \<Rightarrow> nat \<Rightarrow> nat list \<Rightarrow> string" where
  "spell_from up dash i [] = []"
| "spell_from up dash i [b] =
     [hex_char (up (2 * i)) (b div 16), hex_char (up (2 * i + 1)) (b mod 16)]"
| "spell_from up dash i (b # b' # bs) =
     [hex_char (up (2 * i)) (b div 16), hex_char (up (2 * i + 1)) (b mod 16),
      if dash i then CHR ''-'' else CHR '':''] @ spell_from up dash (Suc i) (b' # bs)"

definition spell_mac :: "(nat \<Rightarrow> bool) \<Rightarrow> (nat \<Rightarrow> bool) \<Rightarrow> nat list \<Rightarrow> string" where
  "spell_mac up dash bs = spell_from up dash 0 bs"

definition canonical_spelling :: "nat list \<Rightarrow> string" where
  "canonical_spelling bs = spell_mac (\<lambda>i. False) (\<lambda>i. False) bs"

text \<open>What the normalisation does to one character.\<close>

definition norm_char :: "char \<Rightarrow> char" where
  "norm_char c = (if lower_char c = CHR ''-'' then CHR '':'' else lower_char c)"

section \<open>Properties of the character classes and of the matcher\<close>

lemma space_not_digit: "is_space c \<Longrightarrow> \<not> is_digit c"
  by (auto simp add: is_space_def is_digit_def Let_def)

lemma mac_char_not_space: "is_mac_char c \<Longrightarrow> \<not> is_space c"
  by (auto simp add: is_space_def is_mac_char_def is_word_def Let_def)

lemma dot_not_digit: "\<not> is_digit CHR ''.''"
  by (simp add: is_digit_def)

lemma digit_not_dot: "is_digit c \<Longrightarrow> c \<noteq> CHR ''.''"
  using dot_not_digit by blast

lemma lower_char_idem: "lower_char (lower_char c) = lower_char c"
  by (simp add: lower_char_def Let_def)

lemma try_plus_SomeD:
  "try_plus cont s n = Some ps \<Longrightarrow>
     \<exists>k rest. 0 < k \<and> k \<le> n \<and> ps = take k s # rest \<and> cont (drop k s) = Some rest"
proof (induction n)
  case 0
  then show ?case by simp
next
  case (Suc n)
  show ?case
  proof (cases "cont (drop (Suc n) s)")
    case None
    with Suc.prems have "try_plus cont s n = Some ps" by simp
    from Suc.IH [OF this] obtain k rest where
      "0 < k" "k \<le> n" "ps = take k s # rest" "cont (drop k s) = Some rest" by blast
    then have "0 < k \<and> k \<le> Suc n \<and> ps = take k s # rest \<and> cont (drop k s) = Some rest"
      by simp
    then show ?thesis by blast
  next
    case (Some rest)
    with Suc.prems have "ps = take (Suc n) s # rest" by simp
    with Some show ?thesis by blast
  qed
qed

lemma try_plus_first:
  "0 < n \<Longrightarrow> cont (drop n s) = Some rest \<Longrightarrow> try_plus cont s n = Some (take n s # rest)"
  by (cases n) simp_all

lemma take_run:
  assumes "k \<le> length (takeWhile p s)"
  shows "list_all p (take k s)"
proof -
  have "take k s = take k (takeWhile p s @ dropWhile p s)" by simp
  also have "\<dots> = take k (takeWhile p s)" using assms by (simp del: takeWhile_dropWhile_id)
  finally have "set (take k s) \<subseteq> set (takeWhile p s)" by (metis set_take_subset)
  then show ?thesis by (auto simp add: list_all_iff dest: set_takeWhileD)
qed

lemma match_plus_SomeD:
  assumes "match_atoms (Plus p # as) s = Some ps"
  shows "\<exists>x t rest. s = x @ t \<and> x \<noteq> [] \<and> list_all p x \<and> ps = x # rest \<and>
           match_atoms as t = Some rest"
proof -
  from assms have "try_plus (\<lambda>t. match_atoms as t) s (length (takeWhile p s)) = Some ps"
    by simp
  from try_plus_SomeD [OF this] obtain k rest where
    k: "0 < k" "k \<le> length (takeWhile p s)" and
    ps: "ps = take k s # rest" and rest: "match_atoms as (drop k s) = Some rest"
    by blast
  have "length (takeWhile p s) \<le> length s" by (rule length_takeWhile_le)
  with k have "take k s \<noteq> []" by auto
  moreover have "list_all p (take k s)" using k(2) by (rule take_run)
  moreover have "s = take k s @ drop k s" by simp
  ultimately show ?thesis using ps rest by blast
qed

lemma match_plus_greedy:
  assumes "x \<noteq> []" "list_all p x" "t = [] \<or> \<not> p (hd t)"
    and "match_atoms as t = Some rest"
  shows "match_atoms (Plus p # as) (x @ t) = Some (x # rest)"
proof -
  have "takeWhile p t = []" using assms(3) by (cases t) auto
  with assms(2) have "takeWhile p (x @ t) = x"
    by (simp add: list_all_iff)
  then have n: "length (takeWhile p (x @ t)) = length x" by simp
  have "try_plus (\<lambda>t. match_atoms as t) (x @ t) (length x) = Some (take (length x) (x @ t) # rest)"
    by (rule try_plus_first) (use assms in simp_all)
  then show ?thesis using n by simp
qed

lemma match_lit_SomeD:
  "match_atoms (Lit c # as) s = Some ps \<Longrightarrow>
     \<exists>t rest. s = c # t \<and> ps = [c] # rest \<and> match_atoms as t = Some rest"
  by (cases s) (auto split: if_splits)

lemma match_lit_here:
  "match_atoms as t = Some rest \<Longrightarrow> match_atoms (Lit c # as) (c # t) = Some ([c] # rest)"
  by simp

lemma re_search_SomeD:
  "re_search pat s = Some ps \<Longrightarrow> \<exists>pre t. s = pre @ t \<and> match_atoms pat t = Some ps"
proof (induction s)
  case Nil
  then show ?case by simp
next
  case (Cons c cs)
  show ?case
  proof (cases "match_atoms pat (c # cs)")
    case None
    with Cons.prems have "re_search pat cs = Some ps" by simp
    from Cons.IH [OF this] obtain pre t where "cs = pre @ t" "match_atoms pat t = Some ps"
      by blast
    then have "c # cs = (c # pre) @ t \<and> match_atoms pat t = Some ps" by simp
    then show ?thesis by blast
  next
    case (Some qs)
    with Cons.prems have "c # cs = [] @ (c # cs) \<and> match_atoms pat (c # cs) = Some ps" by simp
    then show ?thesis by blast
  qed
qed

lemma re_search_here:
  "match_atoms pat s = Some ps \<Longrightarrow> re_search pat s = Some ps"
  by (cases s) simp_all

lemma arp_match_SomeD:
  assumes "match_atoms arp_pattern s = Some ps"
  shows "\<exists>d1 d2 d3 d4 ws tok post.
           s = quad d1 d2 d3 d4 @ ws @ tok @ post \<and>
           ps = [d1, ''.'', d2, ''.'', d3, ''.'', d4, ws, tok] \<and>
           digits d1 \<and> digits d2 \<and> digits d3 \<and> digits d4 \<and>
           ws \<noteq> [] \<and> list_all is_space ws \<and> tok \<noteq> [] \<and> list_all is_mac_char tok"
proof -
  note a0 = assms [unfolded arp_pattern_def]
  from match_plus_SomeD [OF a0] obtain d1 t1 r1 where
    s1: "s = d1 @ t1" "ps = d1 # r1" and d1: "d1 \<noteq> []" "list_all is_digit d1" and
    a1: "match_atoms [Lit CHR ''.'', Plus is_digit, Lit CHR ''.'', Plus is_digit, Lit CHR ''.'',
      Plus is_digit, Plus is_space, Plus is_mac_char] t1 = Some r1" by blast
  from match_lit_SomeD [OF a1] obtain t2 r2 where
    s2: "t1 = CHR ''.'' # t2" "r1 = ''.'' # r2" and
    a2: "match_atoms [Plus is_digit, Lit CHR ''.'', Plus is_digit, Lit CHR ''.'',
      Plus is_digit, Plus is_space, Plus is_mac_char] t2 = Some r2" by blast
  from match_plus_SomeD [OF a2] obtain d2 t3 r3 where
    s3: "t2 = d2 @ t3" "r2 = d2 # r3" and d2: "d2 \<noteq> []" "list_all is_digit d2" and
    a3: "match_atoms [Lit CHR ''.'', Plus is_digit, Lit CHR ''.'',
      Plus is_digit, Plus is_space, Plus is_mac_char] t3 = Some r3" by blast
  from match_lit_SomeD [OF a3] obtain t4 r4 where
    s4: "t3 = CHR ''.'' # t4" "r3 = ''.'' # r4" and
    a4: "match_atoms [Plus is_digit, Lit CHR ''.'',
      Plus is_digit, Plus is_space, Plus is_mac_char] t4 = Some r4" by blast
  from match_plus_SomeD [OF a4] obtain d3 t5 r5 where
    s5: "t4 = d3 @ t5" "r4 = d3 # r5" and d3: "d3 \<noteq> []" "list_all is_digit d3" and
    a5: "match_atoms [Lit CHR ''.'', Plus is_digit, Plus is_space, Plus is_mac_char] t5 = Some r5"
    by blast
  from match_lit_SomeD [OF a5] obtain t6 r6 where
    s6: "t5 = CHR ''.'' # t6" "r5 = ''.'' # r6" and
    a6: "match_atoms [Plus is_digit, Plus is_space, Plus is_mac_char] t6 = Some r6" by blast
  from match_plus_SomeD [OF a6] obtain d4 t7 r7 where
    s7: "t6 = d4 @ t7" "r6 = d4 # r7" and d4: "d4 \<noteq> []" "list_all is_digit d4" and
    a7: "match_atoms [Plus is_space, Plus is_mac_char] t7 = Some r7" by blast
  from match_plus_SomeD [OF a7] obtain ws t8 r8 where
    s8: "t7 = ws @ t8" "r7 = ws # r8" and ws: "ws \<noteq> []" "list_all is_space ws" and
    a8: "match_atoms [Plus is_mac_char] t8 = Some r8" by blast
  from match_plus_SomeD [OF a8] obtain tok post r9 where
    s9: "t8 = tok @ post" "r8 = tok # r9" and tok: "tok \<noteq> []" "list_all is_mac_char tok" and
    a9: "match_atoms [] post = Some r9" by blast
  from a9 have r9: "r9 = []" by simp
  have "s = quad d1 d2 d3 d4 @ ws @ tok @ post"
    by (simp add: quad_def s1 s2 s3 s4 s5 s6 s7 s8 s9)
  moreover have "ps = [d1, ''.'', d2, ''.'', d3, ''.'', d4, ws, tok]"
    by (simp add: s1 s2 s3 s4 s5 s6 s7 s8 s9 r9)
  ultimately show ?thesis using d1 d2 d3 d4 ws tok unfolding digits_def by blast
qed

lemma arp_match_greedy:
  assumes "digits d1" "digits d2" "digits d3" "digits d4"
    and "ws \<noteq> []" "list_all is_space ws" "tok \<noteq> []" "list_all is_mac_char tok"
    and "post = [] \<or> \<not> is_mac_char (hd post)"
  shows "match_atoms arp_pattern (quad d1 d2 d3 d4 @ ws @ tok @ post) =
           Some [d1, ''.'', d2, ''.'', d3, ''.'', d4, ws, tok]"
proof -
  have hw: "is_space (hd ws)" using assms(5,6) by (cases ws) simp_all
  have ht: "is_mac_char (hd tok)" using assms(7,8) by (cases tok) simp_all
  have m9: "match_atoms [Plus is_mac_char] (tok @ post) = Some [tok]"
    by (rule match_plus_greedy) (use assms in simp_all)
  have m8: "match_atoms [Plus is_space, Plus is_mac_char] (ws @ tok @ post) = Some [ws, tok]"
    by (rule match_plus_greedy) (use assms ht m9 mac_char_not_space in simp_all)
  have nd: "\<not> is_digit (hd (ws @ tok @ post))"
    using hw assms(5) space_not_digit by simp
  have m7: "match_atoms [Plus is_digit, Plus is_space, Plus is_mac_char] (d4 @ ws @ tok @ post)
      = Some [d4, ws, tok]"
    by (rule match_plus_greedy) (use assms(4) nd m8 in \<open>simp_all add: digits_def\<close>)
  have m6: "match_atoms [Lit CHR ''.'', Plus is_digit, Plus is_space, Plus is_mac_char]
      (CHR ''.'' # d4 @ ws @ tok @ post) = Some [''.'', d4, ws, tok]"
    using m7 by simp
  have m5: "match_atoms [Plus is_digit, Lit CHR ''.'', Plus is_digit, Plus is_space,
      Plus is_mac_char] (d3 @ CHR ''.'' # d4 @ ws @ tok @ post) = Some [d3, ''.'', d4, ws, tok]"
    by (rule match_plus_greedy) (use assms(3) dot_not_digit m6 in \<open>simp_all add: digits_def\<close>)
  have m4: "match_atoms [Lit CHR ''.'', Plus is_digit, Lit CHR ''.'', Plus is_digit,
      Plus is_space, Plus is_mac_char] (CHR ''.'' # d3 @ CHR ''.'' # d4 @ ws @ tok @ post)
      = Some [''.'', d3, ''.'', d4, ws, tok]"
    using m5 by simp
  have m3: "match_atoms [Plus is_digit, Lit CHR ''.'', Plus is_digit, Lit CHR ''.'',
      Plus is_digit, Plus is_space, Plus is_mac_char]
      (d2 @ CHR ''.'' # d3 @ CHR ''.'' # d4 @ ws @ tok @ post)
      = Some [d2, ''.'', d3, ''.'', d4, ws, tok]"
    by (rule match_plus_greedy) (use assms(2) dot_not_digit m4 in \<open>simp_all add: digits_def\<close>)
  have m2: "match_atoms [Lit CHR ''.'', Plus is_digit, Lit CHR ''.'', Plus is_digit,
      Lit CHR ''.'', Plus is_digit, Plus is_space, Plus is_mac_char]
      (CHR ''.'' # d2 @ CHR ''.'' # d3 @ CHR ''.'' # d4 @ ws @ tok @ post)
      = Some [''.'', d2, ''.'', d3, ''.'', d4, ws, tok]"
    using m3 by simp
  have m1: "match_atoms [Plus is_digit, Lit CHR ''.'', Plus is_digit, Lit CHR ''.'',
      Plus is_digit, Lit CHR ''.'', Plus is_digit, Plus is_space, Plus is_mac_char]
      (d1 @ CHR ''.'' # d2 @ CHR ''.'' # d3 @ CHR ''.'' # d4 @ ws @ tok @ post)
      = Some [d1, ''.'', d2, ''.'', d3, ''.'', d4, ws, tok]"
    by (rule match_plus_greedy) (use assms(1) dot_not_digit m2 in \<open>simp_all add: digits_def\<close>)
  then show ?thesis by (simp add: arp_pattern_def quad_def)
qed

lemma groups_quad:
  "groups [d1, ''.'', d2, ''.'', d3, ''.'', d4, ws, tok] = (quad d1 d2 d3 d4, tok)"
  by (simp add: groups_def quad_def)

lemma arp_search_SomeD:
  assumes "arp_search line = Some (ip, mac)"
  shows "\<exists>pre d1 d2 d3 d4 ws post.
           line = pre @ ip @ ws @ mac @ post \<and> ip = quad d1 d2 d3 d4 \<and>
           digits d1 \<and> digits d2 \<and> digits d3 \<and> digits d4 \<and>
           ws \<noteq> [] \<and> list_all is_space ws \<and> mac \<noteq> [] \<and> list_all is_mac_char mac"
proof -
  from assms obtain ps where ps: "re_search arp_pattern line = Some ps" "groups ps = (ip, mac)"
    by (auto simp add: arp_search_def)
  from re_search_SomeD [OF ps(1)] obtain pre t where
    t: "line = pre @ t" "match_atoms arp_pattern t = Some ps" by blast
  from arp_match_SomeD [OF t(2)] obtain d1 d2 d3 d4 ws tok post where
    d: "t = quad d1 d2 d3 d4 @ ws @ tok @ post"
      "ps = [d1, ''.'', d2, ''.'', d3, ''.'', d4, ws, tok]"
      "digits d1" "digits d2" "digits d3" "digits d4"
      "ws \<noteq> []" "list_all is_space ws" "tok \<noteq> []" "list_all is_mac_char tok" by blast
  from ps(2) d(2) have g: "ip = quad d1 d2 d3 d4" "mac = tok" by (simp_all add: groups_quad)
  have "line = pre @ ip @ ws @ mac @ post" using t(1) d(1) g by simp
  with g d show ?thesis by blast
qed

lemma arp_search_line:
  assumes "digits d1" "digits d2" "digits d3" "digits d4"
    and "ws \<noteq> []" "list_all is_space ws" "tok \<noteq> []" "list_all is_mac_char tok"
    and "post = [] \<or> \<not> is_mac_char (hd post)"
  shows "arp_search (quad d1 d2 d3 d4 @ ws @ tok @ post) = Some (quad d1 d2 d3 d4, tok)"
  using re_search_here [OF arp_match_greedy [OF assms]]
  by (simp add: arp_search_def groups_quad)

lemma split_on_not_Nil: "split_on sep s \<noteq> []"
  by (induction s) (auto split: list.splits)

lemma split_on_no_sep: "\<forall>c\<in>set g. \<not> sep c \<Longrightarrow> split_on sep g = [g]"
  by (induction g) simp_all

lemma split_on_append_sep:
  "\<forall>c\<in>set g. \<not> sep c \<Longrightarrow> sep x \<Longrightarrow> split_on sep (g @ x # t) = g # split_on sep t"
  by (induction g) simp_all

lemma split_on_ConsD:
  "split_on sep s = g # gs \<Longrightarrow>
     (gs = [] \<and> s = g) \<or> (\<exists>x t. sep x \<and> s = g @ x # t \<and> split_on sep t = gs)"
proof (induction s arbitrary: g gs)
  case Nil
  then show ?case by simp
next
  case (Cons c cs)
  show ?case
  proof (cases "sep c")
    case True
    with Cons.prems have "g = []" "split_on sep cs = gs" by simp_all
    with True show ?thesis by auto
  next
    case False
    obtain h hs where h: "split_on sep cs = h # hs"
      using split_on_not_Nil [of sep cs] by (cases "split_on sep cs") auto
    with False Cons.prems have g: "g = c # h" "gs = hs" by simp_all
    from Cons.IH [OF h] show ?thesis
    proof
      assume "hs = [] \<and> cs = h"
      with g show ?thesis by simp
    next
      assume "\<exists>x t. sep x \<and> cs = h @ x # t \<and> split_on sep t = hs"
      then obtain x t where "sep x" "cs = h @ x # t" "split_on sep t = hs" by blast
      with g have "sep x \<and> c # cs = g @ x # t \<and> split_on sep t = gs" by simp
      then show ?thesis by blast
    qed
  qed
qed

lemma split_on_chars:
  "c \<in> set s \<Longrightarrow> sep c \<or> (\<exists>g\<in>set (split_on sep s). c \<in> set g)"
proof (induction s)
  case Nil
  then show ?case by simp
next
  case (Cons a s)
  obtain h hs where h: "split_on sep s = h # hs"
    using split_on_not_Nil [of sep s] by (cases "split_on sep s") auto
  show ?case
  proof (cases "c = a")
    case True
    then show ?thesis using h by (cases "sep a") auto
  next
    case False
    with Cons.prems have "c \<in> set s" by simp
    from Cons.IH [OF this] show ?thesis using h by (cases "sep a") auto
  qed
qed

lemma digits_no_dot: "digits d \<Longrightarrow> \<forall>c\<in>set d. \<not> c = CHR ''.''"
  using digit_not_dot by (auto simp add: digits_def list_all_iff)

lemma dotted_quad_quad:
  assumes "digits a" "digits b" "digits c" "digits d"
  shows "dotted_quad (quad a b c d)"
proof -
  have "split_on (\<lambda>c. c = CHR ''.'') (quad a b c d) = [a, b, c, d]"
    unfolding quad_def
    using assms by (simp add: split_on_append_sep split_on_no_sep digits_no_dot)
  then show ?thesis using assms by (simp add: dotted_quad_def)
qed

lemma dotted_quadD:
  assumes "dotted_quad ip"
  shows "\<exists>a b c d. ip = quad a b c d \<and> digits a \<and> digits b \<and> digits c \<and> digits d"
proof -
  let ?sep = "\<lambda>c. c = CHR ''.''"
  from assms obtain a b c d where
    sp: "split_on ?sep ip = [a, b, c, d]" and dg: "digits a" "digits b" "digits c" "digits d"
    by (auto simp add: dotted_quad_def Let_def length_Suc_conv numeral_eq_Suc)
  from split_on_ConsD [OF sp] obtain t1 where
    t1: "ip = a @ CHR ''.'' # t1" "split_on ?sep t1 = [b, c, d]" by auto
  from split_on_ConsD [OF t1(2)] obtain t2 where
    t2: "t1 = b @ CHR ''.'' # t2" "split_on ?sep t2 = [c, d]" by auto
  from split_on_ConsD [OF t2(2)] obtain t3 where
    t3: "t2 = c @ CHR ''.'' # t3" "split_on ?sep t3 = [d]" by auto
  from split_on_ConsD [OF t3(2)] have "t3 = d" using split_on_not_Nil [of ?sep] by auto
  with t1 t2 t3 have "ip = quad a b c d" by (simp add: quad_def)
  with dg show ?thesis by blast
qed

lemma collect_lines_eq:
  "collect_lines devices ls = devices @ List.map_filter parse_line ls"
  by (induction ls arbitrary: devices)
    (auto simp add: List.map_filter_simps parse_line_def split: option.splits)

lemma scan_lines_eq:
  "scan_lines t ls = lookup_first (List.map_filter parse_line ls) t"
  by (induction ls) (auto simp add: List.map_filter_simps parse_line_def split: option.splits)

lemma splitlines_from_single:
  "\<forall>c\<in>set s. \<not> is_linebreak c \<Longrightarrow>
     splitlines_from cur s = (if cur @ s = [] then [] else [cur @ s])"
proof (induction s arbitrary: cur)
  case Nil
  then show ?case by simp
next
  case (Cons c cs)
  have "is_linebreak (CHR 0x0D)" by (simp add: is_linebreak_def)
  with Cons.prems have "c \<noteq> CHR 0x0D" "\<not> is_linebreak c" by auto
  with Cons show ?case by simp
qed

lemma splitlines_single:
  "s \<noteq> [] \<Longrightarrow> \<forall>c\<in>set s. \<not> is_linebreak c \<Longrightarrow> splitlines s = [s]"
  by (simp add: splitlines_def splitlines_from_single)

lemma lookup_first_Some_iff:
  "lookup_first ps m = Some ip \<longleftrightarrow>
     (\<exists>i<length ps. ps ! i = (ip, m) \<and> (\<forall>j<i. snd (ps ! j) \<noteq> m))"
proof (induction ps)
  case Nil
  then show ?case by simp
next
  case (Cons p ps)
  obtain a b where p: "p = (a, b)" by (cases p)
  show ?case
  proof (cases "b = m")
    case True
    have "(\<exists>i<length (p # ps). (p # ps) ! i = (ip, m) \<and> (\<forall>j<i. snd ((p # ps) ! j) \<noteq> m))
        \<longleftrightarrow> a = ip"
    proof
      assume "\<exists>i<length (p # ps). (p # ps) ! i = (ip, m) \<and> (\<forall>j<i. snd ((p # ps) ! j) \<noteq> m)"
      then obtain i where i: "(p # ps) ! i = (ip, m)" "\<forall>j<i. snd ((p # ps) ! j) \<noteq> m" by blast
      have "i = 0"
      proof (rule ccontr)
        assume "i \<noteq> 0"
        then have "snd ((p # ps) ! 0) \<noteq> m" using i(2) by blast
        then show False using p True by simp
      qed
      with i(1) p show "a = ip" by simp
    next
      assume "a = ip"
      then have "0 < length (p # ps) \<and> (p # ps) ! 0 = (ip, m) \<and> (\<forall>j<0. snd ((p # ps) ! j) \<noteq> m)"
        using p True by simp
      then show "\<exists>i<length (p # ps). (p # ps) ! i = (ip, m) \<and> (\<forall>j<i. snd ((p # ps) ! j) \<noteq> m)"
        by blast
    qed
    then show ?thesis using p True by auto
  next
    case False
    have "(\<exists>i<length (p # ps). (p # ps) ! i = (ip, m) \<and> (\<forall>j<i. snd ((p # ps) ! j) \<noteq> m))
        \<longleftrightarrow> (\<exists>i<length ps. ps ! i = (ip, m) \<and> (\<forall>j<i. snd (ps ! j) \<noteq> m))"
    proof
      assume "\<exists>i<length (p # ps). (p # ps) ! i = (ip, m) \<and> (\<forall>j<i. snd ((p # ps) ! j) \<noteq> m)"
      then obtain i where i: "i < length (p # ps)" "(p # ps) ! i = (ip, m)"
        "\<forall>j<i. snd ((p # ps) ! j) \<noteq> m" by blast
      from i(2) p False obtain k where k: "i = Suc k" by (cases i) auto
      with i have "k < length ps" "ps ! k = (ip, m)" by simp_all
      moreover have "\<forall>j<k. snd (ps ! j) \<noteq> m"
      proof (intro allI impI)
        fix j assume "j < k"
        then have "Suc j < i" using k by simp
        with i(3) have "snd ((p # ps) ! Suc j) \<noteq> m" by blast
        then show "snd (ps ! j) \<noteq> m" by simp
      qed
      ultimately show "\<exists>i<length ps. ps ! i = (ip, m) \<and> (\<forall>j<i. snd (ps ! j) \<noteq> m)" by blast
    next
      assume "\<exists>i<length ps. ps ! i = (ip, m) \<and> (\<forall>j<i. snd (ps ! j) \<noteq> m)"
      then obtain i where i: "i < length ps" "ps ! i = (ip, m)" "\<forall>j<i. snd (ps ! j) \<noteq> m"
        by blast
      have "\<forall>j<Suc i. snd ((p # ps) ! j) \<noteq> m"
      proof (intro allI impI)
        fix j assume j: "j < Suc i"
        show "snd ((p # ps) ! j) \<noteq> m"
          using j i(3) p False by (cases j) auto
      qed
      with i have "Suc i < length (p # ps) \<and> (p # ps) ! Suc i = (ip, m) \<and>
          (\<forall>j<Suc i. snd ((p # ps) ! j) \<noteq> m)" by simp
      then show "\<exists>i<length (p # ps). (p # ps) ! i = (ip, m) \<and> (\<forall>j<i. snd ((p # ps) ! j) \<noteq> m)"
        by blast
    qed
    then show ?thesis using p False Cons.IH by simp
  qed
qed

lemma lookup_first_None_iff:
  "lookup_first ps m = None \<longleftrightarrow> (\<forall>p\<in>set ps. snd p \<noteq> m)"
  by (induction ps) (auto split: if_splits)

lemma get_ip_lookup_parsed:
  "get_ip_from_mac out q = lookup_first (parsed_pairs out) (normalize_mac q)"
  by (simp add: get_ip_from_mac_def parsed_pairs_def scan_lines_eq)

lemma list_arp_table_parsed: "list_arp_table out = parsed_pairs out"
  by (simp add: list_arp_table_def parsed_pairs_def collect_lines_eq)

lemma set_map_filter: "set (List.map_filter f xs) = {y. \<exists>x\<in>set xs. f x = Some y}"
  by (induction xs) (auto simp add: List.map_filter_simps split: option.splits)

lemma parsed_pairs_memD:
  assumes "(ip, mac) \<in> set (parsed_pairs out)"
  shows "\<exists>line tok. line \<in> set (splitlines out) \<and> arp_search line = Some (ip, tok) \<and>
           mac = normalize_mac tok"
proof -
  from assms obtain line where l: "line \<in> set (splitlines out)" "parse_line line = Some (ip, mac)"
    by (auto simp add: parsed_pairs_def set_map_filter)
  from l(2) obtain tok where "arp_search line = Some (ip, tok)" "mac = normalize_mac tok"
    by (auto simp add: parse_line_def)
  with l(1) show ?thesis by blast
qed

lemma lookup_first_SomeD: "lookup_first ps m = Some ip \<Longrightarrow> (ip, m) \<in> set ps"
  by (induction ps) (auto split: if_splits)

lemma linebreak_is_space: "is_linebreak c \<Longrightarrow> is_space c"
  by (auto simp add: is_linebreak_def is_space_def Let_def)

lemma digit_not_linebreak: "is_digit c \<Longrightarrow> \<not> is_linebreak c"
  using linebreak_is_space space_not_digit by blast

lemma mac_char_not_linebreak: "is_mac_char c \<Longrightarrow> \<not> is_linebreak c"
  using linebreak_is_space mac_char_not_space by blast

lemma quad_no_linebreak:
  assumes "digits a" "digits b" "digits c" "digits d"
  shows "\<forall>x\<in>set (quad a b c d). \<not> is_linebreak x"
proof -
  have "\<not> is_linebreak CHR ''.''" by (simp add: is_linebreak_def)
  then show ?thesis
    using assms digit_not_linebreak by (auto simp add: quad_def digits_def list_all_iff)
qed

lemma quad_not_Nil: "quad a b c d \<noteq> []"
  by (simp add: quad_def)

lemma list_arp_table_single_line:
  assumes "digits d1" "digits d2" "digits d3" "digits d4"
    and "ws \<noteq> []" "list_all is_blank ws" "tok \<noteq> []" "list_all is_mac_char tok"
  shows "list_arp_table (quad d1 d2 d3 d4 @ ws @ tok) = [(quad d1 d2 d3 d4, normalize_mac tok)]"
proof -
  let ?line = "quad d1 d2 d3 d4 @ ws @ tok"
  have sp: "list_all is_space ws" using assms(6) by (simp add: list_all_iff is_blank_def)
  have "\<forall>x\<in>set ?line. \<not> is_linebreak x"
    using quad_no_linebreak [OF assms(1-4)] assms(6,8) mac_char_not_linebreak
    by (auto simp add: list_all_iff is_blank_def)
  moreover have "?line \<noteq> []" using assms(5) by simp
  ultimately have "splitlines ?line = [?line]" by (simp add: splitlines_single)
  moreover have "arp_search ?line = Some (quad d1 d2 d3 d4, tok)"
    using arp_search_line [OF assms(1-5) sp assms(7,8), of "[]"] by simp
  ultimately show ?thesis by (simp add: list_arp_table_def)
qed

lemma normalize_mac_map: "normalize_mac s = map norm_char s"
  by (simp add: normalize_mac_def lower_def replace_dash_def norm_char_def)

lemma lower_char_colon: "lower_char CHR '':'' = CHR '':''"
  by (simp add: lower_char_def)

lemma norm_char_idem: "norm_char (norm_char c) = norm_char c"
  by (simp add: norm_char_def lower_char_idem lower_char_colon)

lemma norm_char_lower_hex: "is_lower_hex c \<Longrightarrow> norm_char c = c"
  by (cases c) (auto simp add: norm_char_def lower_char_def is_lower_hex_def Let_def)

lemma norm_char_colon: "norm_char CHR '':'' = CHR '':''"
  by (simp add: norm_char_def lower_char_colon)

lemma lower_char_dash: "lower_char CHR ''-'' = CHR ''-''"
  by (simp add: lower_char_def)

lemma nibble_cases:
  assumes "n < (16::nat)"
  shows "n \<in> set [0..<16]"
  using assms by simp

lemma hex_char_table:
  "\<forall>n\<in>set [0..<16].
     norm_char (hex_char True n) = hex_char False n \<and>
     norm_char (hex_char False n) = hex_char False n \<and>
     is_lower_hex (hex_char False n) \<and> hex_char False n \<noteq> CHR '':'' \<and>
     is_mac_char (hex_char True n) \<and> is_mac_char (hex_char False n)"
  by code_simp

lemma hex_char_norm:
  assumes "n < 16"
  shows "norm_char (hex_char u n) = hex_char False n"
proof -
  from nibble_cases [OF assms] hex_char_table
  have "norm_char (hex_char True n) = hex_char False n \<and>
      norm_char (hex_char False n) = hex_char False n" by blast
  then show ?thesis by (cases u) simp_all
qed

lemma hex_char_lower_hex: "n < 16 \<Longrightarrow> is_lower_hex (hex_char False n)"
  using nibble_cases [of n] hex_char_table by blast

lemma hex_char_mac_char:
  assumes "n < 16"
  shows "is_mac_char (hex_char u n)"
proof -
  from nibble_cases [OF assms] hex_char_table
  have "is_mac_char (hex_char True n) \<and> is_mac_char (hex_char False n)" by blast
  then show ?thesis by (cases u) simp_all
qed

lemma hex_char_not_colon: "n < 16 \<Longrightarrow> hex_char False n \<noteq> CHR '':''"
  using nibble_cases [of n] hex_char_table by blast

lemma norm_char_dash: "norm_char CHR ''-'' = CHR '':''"
  by (simp add: norm_char_def lower_char_dash)

lemma byte_nibbles: "b < 256 \<Longrightarrow> b div 16 < (16::nat) \<and> b mod 16 < 16"
  by auto

lemma normalize_spell_from:
  "list_all (\<lambda>b. b < 256) bs \<Longrightarrow>
     normalize_mac (spell_from up dash i bs) = spell_from (\<lambda>i. False) (\<lambda>i. False) i bs"
proof (induction up dash i bs rule: spell_from.induct)
  case (1 up dash i)
  then show ?case by (simp add: normalize_mac_map)
next
  case (2 up dash i b)
  then show ?case by (simp add: normalize_mac_map hex_char_norm byte_nibbles)
next
  case (3 up dash i b b' bs)
  then have "normalize_mac (spell_from up dash (Suc i) (b' # bs))
      = spell_from (\<lambda>i. False) (\<lambda>i. False) (Suc i) (b' # bs)" by simp
  moreover have "b div 16 < 16" "b mod 16 < 16" using 3(2) by (simp_all add: byte_nibbles)
  ultimately show ?case
    by (simp add: normalize_mac_map hex_char_norm norm_char_dash norm_char_colon)
qed

lemma spell_from_mac_chars:
  "list_all (\<lambda>b. b < 256) bs \<Longrightarrow> list_all is_mac_char (spell_from up dash i bs)"
proof (induction up dash i bs rule: spell_from.induct)
  case (1 up dash i)
  then show ?case by simp
next
  case (2 up dash i b)
  then show ?case by (simp add: hex_char_mac_char byte_nibbles)
next
  case (3 up dash i b b' bs)
  moreover have "is_mac_char CHR ''-''" "is_mac_char CHR '':''" by (simp_all add: is_mac_char_def)
  ultimately show ?case by (simp add: hex_char_mac_char byte_nibbles)
qed

lemma spell_from_not_Nil: "bs \<noteq> [] \<Longrightarrow> spell_from up dash i bs \<noteq> []"
  by (induction up dash i bs rule: spell_from.induct) simp_all

lemma canonical_spelling_canonical:
  assumes "length bs = 6" "list_all (\<lambda>b. b < 256) bs"
  shows "canonical_mac (canonical_spelling bs)"
proof -
  from assms(1) obtain b0 b1 b2 b3 b4 b5 where bs: "bs = [b0, b1, b2, b3, b4, b5]"
    by (auto simp add: length_Suc_conv numeral_eq_Suc)
  let ?h = "hex_char False"
  let ?sep = "\<lambda>c. c = CHR '':''"
  have n: "b0 div 16 < 16" "b0 mod 16 < 16" "b1 div 16 < 16" "b1 mod 16 < 16"
    "b2 div 16 < 16" "b2 mod 16 < 16" "b3 div 16 < 16" "b3 mod 16 < 16"
    "b4 div 16 < 16" "b4 mod 16 < 16" "b5 div 16 < 16" "b5 mod 16 < 16"
    using assms(2) by (simp_all add: bs byte_nibbles)
  have sp: "split_on ?sep (canonical_spelling bs) =
      [[?h (b0 div 16), ?h (b0 mod 16)], [?h (b1 div 16), ?h (b1 mod 16)],
       [?h (b2 div 16), ?h (b2 mod 16)], [?h (b3 div 16), ?h (b3 mod 16)],
       [?h (b4 div 16), ?h (b4 mod 16)], [?h (b5 div 16), ?h (b5 mod 16)]]"
    using n by (simp add: canonical_spelling_def spell_mac_def bs hex_char_not_colon)
  show ?thesis
    unfolding canonical_mac_def sp Let_def using n by (simp add: hex_char_lower_hex)
qed

lemma normalize_spell_mac:
  "list_all (\<lambda>b. b < 256) bs \<Longrightarrow> normalize_mac (spell_mac up dash bs) = canonical_spelling bs"
  by (simp add: spell_mac_def canonical_spelling_def normalize_spell_from)

lemma get_ip_single_line:
  assumes "dotted_quad ip" "ws \<noteq> []" "list_all is_blank ws"
    and "tok \<noteq> []" "list_all is_mac_char tok" "normalize_mac tok = normalize_mac q"
  shows "get_ip_from_mac (ip @ ws @ tok) q = Some ip"
proof -
  from dotted_quadD [OF assms(1)] obtain d1 d2 d3 d4 where
    q: "ip = quad d1 d2 d3 d4" and d: "digits d1" "digits d2" "digits d3" "digits d4" by blast
  have "list_arp_table (quad d1 d2 d3 d4 @ ws @ tok) = [(quad d1 d2 d3 d4, normalize_mac tok)]"
    using d assms(2-5) by (rule list_arp_table_single_line)
  then have "parsed_pairs (ip @ ws @ tok) = [(ip, normalize_mac q)]"
    by (simp add: q list_arp_table_parsed assms(6))
  then show ?thesis by (simp add: get_ip_lookup_parsed)
qed

lemma no_match_no_pairs:
  "\<forall>line\<in>set ls. arp_search line = None \<Longrightarrow> List.map_filter parse_line ls = []"
  by (induction ls) (simp_all add: List.map_filter_simps parse_line_def)

section \<open>The claims of the specification\<close>

text \<open>
  C1: get_ip_from_mac returns the IP of the first parsed pair whose MAC equals the normalised
  query, and \<open>None\<close> exactly when no parsed pair has that MAC. The comparison is
  between canonical forms: a line holding any spelling of a six-byte MAC is found by a query
  in any other spelling of the same bytes.
\<close>

theorem get_ip_from_mac_first_match:
  "(get_ip_from_mac out q = Some ip \<longleftrightarrow>
      (\<exists>i<length (parsed_pairs out).
          parsed_pairs out ! i = (ip, normalize_mac q) \<and>
          (\<forall>j<i. snd (parsed_pairs out ! j) \<noteq> normalize_mac q))) \<and>
   (get_ip_from_mac out q = None \<longleftrightarrow>
      (\<forall>p\<in>set (parsed_pairs out). snd p \<noteq> normalize_mac q)) \<and>
   (dotted_quad addr \<and> ws \<noteq> [] \<and> list_all is_blank ws \<and>
    length bs = 6 \<and> list_all (\<lambda>b. b < 256) bs \<longrightarrow>
      get_ip_from_mac (addr @ ws @ spell_mac up dash bs) (spell_mac up' dash' bs) = Some addr)"
proof (intro conjI impI)
  show "get_ip_from_mac out q = Some ip \<longleftrightarrow>
      (\<exists>i<length (parsed_pairs out).
          parsed_pairs out ! i = (ip, normalize_mac q) \<and>
          (\<forall>j<i. snd (parsed_pairs out ! j) \<noteq> normalize_mac q))"
    by (simp only: get_ip_lookup_parsed lookup_first_Some_iff)
  show "get_ip_from_mac out q = None \<longleftrightarrow>
      (\<forall>p\<in>set (parsed_pairs out). snd p \<noteq> normalize_mac q)"
    by (simp only: get_ip_lookup_parsed lookup_first_None_iff)
next
  assume a: "dotted_quad addr \<and> ws \<noteq> [] \<and> list_all is_blank ws \<and>
    length bs = 6 \<and> list_all (\<lambda>b. b < 256) bs"
  then have bs: "length bs = 6" "list_all (\<lambda>b. b < 256) bs" by simp_all
  have ne: "spell_mac up dash bs \<noteq> []"
    unfolding spell_mac_def using bs(1) by (intro spell_from_not_Nil) auto
  have mc: "list_all is_mac_char (spell_mac up dash bs)"
    using bs(2) by (simp add: spell_mac_def spell_from_mac_chars)
  have "normalize_mac (spell_mac up dash bs) = normalize_mac (spell_mac up' dash' bs)"
    using bs(2) by (simp add: normalize_spell_mac)
  with a ne mc show "get_ip_from_mac (addr @ ws @ spell_mac up dash bs) (spell_mac up' dash' bs)
      = Some addr"
    by (intro get_ip_single_line) simp_all
qed

text \<open>
  An instance of C1: three lines, the first hit being a lower-case colon line found by an
  upper-case dash query, and a line and a query that differ in case and separators.
\<close>

theorem get_ip_from_mac_first_match_witness:
  "parsed_pairs
     (''10.0.0.9 CC-DD'' @ [CHR 0x0A] @ ''10.0.0.1 aa:bb'' @ [CHR 0x0A] @ ''10.0.0.2 AA-BB'')
     = [(''10.0.0.9'', ''cc:dd''), (''10.0.0.1'', ''aa:bb''), (''10.0.0.2'', ''aa:bb'')] \<and>
   normalize_mac ''AA-BB'' = ''aa:bb'' \<and>
   get_ip_from_mac
     (''10.0.0.9 CC-DD'' @ [CHR 0x0A] @ ''10.0.0.1 aa:bb'' @ [CHR 0x0A] @ ''10.0.0.2 AA-BB'')
     ''AA-BB'' = Some ''10.0.0.1'' \<and>
   get_ip_from_mac
     (''10.0.0.9 CC-DD'' @ [CHR 0x0A] @ ''10.0.0.1 aa:bb'' @ [CHR 0x0A] @ ''10.0.0.2 AA-BB'')
     ''cc:dd'' = Some ''10.0.0.9'' \<and>
   get_ip_from_mac
     (''10.0.0.9 CC-DD'' @ [CHR 0x0A] @ ''10.0.0.1 aa:bb'' @ [CHR 0x0A] @ ''10.0.0.2 AA-BB'')
     ''aa:bc'' = None \<and>
   dotted_quad ''192.168.1.5'' \<and> ''  '' \<noteq> [] \<and> list_all is_blank ''  '' \<and>
   length [0, 26, 43, 60, 77, 254 :: nat] = 6 \<and>
   list_all (\<lambda>b. b < 256) [0, 26, 43, 60, 77, 254 :: nat] \<and>
   spell_mac (\<lambda>i. False) (\<lambda>i. False) [0, 26, 43, 60, 77, 254] = ''00:1a:2b:3c:4d:fe'' \<and>
   spell_mac (\<lambda>i. True) (\<lambda>i. True) [0, 26, 43, 60, 77, 254] = ''00-1A-2B-3C-4D-FE'' \<and>
   get_ip_from_mac (''192.168.1.5'' @ ''  '' @ ''00:1a:2b:3c:4d:fe'') ''00-1A-2B-3C-4D-FE''
     = Some ''192.168.1.5'' \<and>
   get_ip_from_mac (''192.168.1.5'' @ ''  '' @ ''00-1A-2B-3C-4D-FE'') ''00:1a:2b:3c:4d:fe''
     = Some ''192.168.1.5''"
proof -
  let ?out = "''10.0.0.9 CC-DD'' @ [CHR 0x0A] @ ''10.0.0.1 aa:bb'' @ [CHR 0x0A] @ ''10.0.0.2 AA-BB''"
  let ?bs = "[0, 26, 43, 60, 77, 254 :: nat]"
  have p: "parsed_pairs ?out
      = [(''10.0.0.9'', ''cc:dd''), (''10.0.0.1'', ''aa:bb''), (''10.0.0.2'', ''aa:bb'')]"
    by code_simp
  have n: "normalize_mac ''AA-BB'' = ''aa:bb''" "normalize_mac ''cc:dd'' = ''cc:dd''"
    "normalize_mac ''aa:bc'' = ''aa:bc''" by code_simp+
  have i1: "\<exists>i<length (parsed_pairs ?out).
      parsed_pairs ?out ! i = (''10.0.0.1'', normalize_mac ''AA-BB'') \<and>
      (\<forall>j<i. snd (parsed_pairs ?out ! j) \<noteq> normalize_mac ''AA-BB'')"
    unfolding p n by (rule exI [of _ 1]) (simp add: less_Suc_eq)
  have i2: "\<exists>i<length (parsed_pairs ?out).
      parsed_pairs ?out ! i = (''10.0.0.9'', normalize_mac ''cc:dd'') \<and>
      (\<forall>j<i. snd (parsed_pairs ?out ! j) \<noteq> normalize_mac ''cc:dd'')"
    unfolding p n by (rule exI [of _ 0]) simp
  have i3: "\<forall>p\<in>set (parsed_pairs ?out). snd p \<noteq> normalize_mac ''aa:bc''"
    unfolding p n by simp
  have g1: "get_ip_from_mac ?out ''AA-BB'' = Some ''10.0.0.1''"
    using get_ip_from_mac_first_match [of ?out "''AA-BB''" "''10.0.0.1''"] i1 by blast
  have g2: "get_ip_from_mac ?out ''cc:dd'' = Some ''10.0.0.9''"
    using get_ip_from_mac_first_match [of ?out "''cc:dd''" "''10.0.0.9''"] i2 by blast
  have g3: "get_ip_from_mac ?out ''aa:bc'' = None"
    using get_ip_from_mac_first_match [of ?out "''aa:bc''"] i3 by blast
  have h: "dotted_quad ''192.168.1.5'' \<and> ''  '' \<noteq> [] \<and> list_all is_blank ''  '' \<and>
    length ?bs = 6 \<and> list_all (\<lambda>b. b < 256) ?bs"
    by code_simp
  have s1: "spell_mac (\<lambda>i. False) (\<lambda>i. False) ?bs = ''00:1a:2b:3c:4d:fe''" by code_simp
  have s2: "spell_mac (\<lambda>i. True) (\<lambda>i. True) ?bs = ''00-1A-2B-3C-4D-FE''" by code_simp
  have g4: "get_ip_from_mac (''192.168.1.5'' @ ''  '' @ ''00:1a:2b:3c:4d:fe'') ''00-1A-2B-3C-4D-FE''
      = Some ''192.168.1.5''"
    using get_ip_from_mac_first_match [where addr = "''192.168.1.5''" and ws = "''  ''" and
        bs = ?bs and up = "\<lambda>i. False" and dash = "\<lambda>i. False" and up' = "\<lambda>i. True" and
        dash' = "\<lambda>i. True"] h
    unfolding s1 s2 by blast
  have g5: "get_ip_from_mac (''192.168.1.5'' @ ''  '' @ ''00-1A-2B-3C-4D-FE'') ''00:1a:2b:3c:4d:fe''
      = Some ''192.168.1.5''"
    using get_ip_from_mac_first_match [where addr = "''192.168.1.5''" and ws = "''  ''" and
        bs = ?bs and up = "\<lambda>i. True" and dash = "\<lambda>i. True" and up' = "\<lambda>i. False" and
        dash' = "\<lambda>i. False"] h
    unfolding s1 s2 by blast
  from p n(1) g1 g2 g3 h s1 s2 g4 g5 show ?thesis by blast
qed

text \<open>
  C2: every MAC returned by list_arp_table should be in the canonical form
  \<open>xx:xx:xx:xx:xx:xx\<close>. The code does not ensure it: the second group of the pattern
  accepts any run of word characters, \<open>-\<close> and \<open>:\<close>, so the header line of a
  Windows ARP table gives the pair of the interface's address and the MAC \<open>:::\<close>.
\<close>

theorem mac_need_not_be_canonical:
  "list_arp_table ''Interface: 192.168.1.10 --- 0xb'' = [(''192.168.1.10'', '':::'')] \<and>
   \<not> canonical_mac '':::''"
  by code_simp

text \<open>
  C3: a line should produce a pair only if the token after the IP is made of hexadecimal
  groups separated by \<open>:\<close> or \<open>-\<close>. The code produces a pair for other tokens
  too: for \<open>---\<close> in the header line of a Windows ARP table, and for the word
  \<open>static\<close>.
\<close>

theorem token_need_not_be_hex:
  "arp_search ''Interface: 192.168.1.10 --- 0xb'' = Some (''192.168.1.10'', ''---'') \<and>
   \<not> hex_group_token ''---'' \<and>
   arp_search ''224.0.0.22    static'' = Some (''224.0.0.22'', ''static'') \<and>
   list_arp_table ''224.0.0.22    static'' = [(''224.0.0.22'', ''static'')] \<and>
   \<not> hex_group_token ''static''"
  by code_simp

text \<open>
  C4: A line made of a dotted quad, blanks and any spelling of a six-byte MAC (each
  hexadecimal digit in either case, each separator \<open>:\<close> or \<open>-\<close>)
  yields the one pair of that IP and the canonical lower-case colon spelling of the MAC,
  whatever the spelling was; and the line \<open>192.168.1.5   AA-BB-CC-DD-EE-FF\<close>
  yields \<open>(192.168.1.5, aa:bb:cc:dd:ee:ff)\<close>.
\<close>

theorem mac_spellings_normalize_alike:
  "(dotted_quad ip \<and> ws \<noteq> [] \<and> list_all is_blank ws \<and>
    length bs = 6 \<and> list_all (\<lambda>b. b < 256) bs \<longrightarrow>
      list_arp_table (ip @ ws @ spell_mac up dash bs) = [(ip, canonical_spelling bs)] \<and>
      canonical_mac (canonical_spelling bs)) \<and>
   list_arp_table ''192.168.1.5   AA-BB-CC-DD-EE-FF'' = [(''192.168.1.5'', ''aa:bb:cc:dd:ee:ff'')]"
proof (intro conjI impI)
  assume a: "dotted_quad ip \<and> ws \<noteq> [] \<and> list_all is_blank ws \<and>
    length bs = 6 \<and> list_all (\<lambda>b. b < 256) bs"
  then have bs: "length bs = 6" "list_all (\<lambda>b. b < 256) bs" by simp_all
  from a dotted_quadD obtain d1 d2 d3 d4 where
    q: "ip = quad d1 d2 d3 d4" and d: "digits d1" "digits d2" "digits d3" "digits d4" by blast
  have ne: "spell_mac up dash bs \<noteq> []"
    unfolding spell_mac_def using bs(1) by (intro spell_from_not_Nil) auto
  have mc: "list_all is_mac_char (spell_mac up dash bs)"
    using bs(2) by (simp add: spell_mac_def spell_from_mac_chars)
  have "list_arp_table (quad d1 d2 d3 d4 @ ws @ spell_mac up dash bs)
      = [(quad d1 d2 d3 d4, normalize_mac (spell_mac up dash bs))]"
    using d a ne mc by (intro list_arp_table_single_line) simp_all
  moreover have "normalize_mac (spell_mac up dash bs) = canonical_spelling bs"
    using bs(2) by (simp add: spell_mac_def canonical_spelling_def normalize_spell_from)
  ultimately show "list_arp_table (ip @ ws @ spell_mac up dash bs) = [(ip, canonical_spelling bs)]"
    by (simp add: q)
  show "canonical_mac (canonical_spelling bs)"
    using bs by (rule canonical_spelling_canonical)
next
  show "list_arp_table ''192.168.1.5   AA-BB-CC-DD-EE-FF''
      = [(''192.168.1.5'', ''aa:bb:cc:dd:ee:ff'')]"
    by code_simp
qed

text \<open>An instance of C4 on a concrete output.\<close>

theorem mac_spellings_normalize_alike_witness:
  "dotted_quad ''192.168.1.5'' \<and> ''   '' \<noteq> [] \<and> list_all is_blank ''   '' \<and>
   length [170, 187, 204, 221, 238, 255 :: nat] = 6 \<and>
   list_all (\<lambda>b. b < 256) [170, 187, 204, 221, 238, 255 :: nat] \<and>
   spell_mac (\<lambda>i. True) (\<lambda>i. True) [170, 187, 204, 221, 238, 255] = ''AA-BB-CC-DD-EE-FF'' \<and>
   spell_mac (\<lambda>i. even i) (\<lambda>i. False) [170, 187, 204, 221, 238, 255] = ''Aa:Bb:Cc:Dd:Ee:Ff'' \<and>
   canonical_spelling [170, 187, 204, 221, 238, 255] = ''aa:bb:cc:dd:ee:ff'' \<and>
   list_arp_table (''192.168.1.5'' @ ''   '' @
       spell_mac (\<lambda>i. True) (\<lambda>i. True) [170, 187, 204, 221, 238, 255])
     = [(''192.168.1.5'', canonical_spelling [170, 187, 204, 221, 238, 255])] \<and>
   list_arp_table (''192.168.1.5'' @ ''   '' @
       spell_mac (\<lambda>i. even i) (\<lambda>i. False) [170, 187, 204, 221, 238, 255])
     = [(''192.168.1.5'', canonical_spelling [170, 187, 204, 221, 238, 255])] \<and>
   canonical_mac (canonical_spelling [170, 187, 204, 221, 238, 255])"
proof -
  have h: "dotted_quad ''192.168.1.5'' \<and> ''   '' \<noteq> [] \<and> list_all is_blank ''   '' \<and>
    length [170, 187, 204, 221, 238, 255 :: nat] = 6 \<and>
    list_all (\<lambda>b. b < 256) [170, 187, 204, 221, 238, 255 :: nat]"
    by code_simp
  have s1: "spell_mac (\<lambda>i. True) (\<lambda>i. True) [170, 187, 204, 221, 238, 255] = ''AA-BB-CC-DD-EE-FF''"
    by code_simp
  have s2: "spell_mac (\<lambda>i. even i) (\<lambda>i. False) [170, 187, 204, 221, 238, 255]
      = ''Aa:Bb:Cc:Dd:Ee:Ff''"
    by code_simp
  have s3: "canonical_spelling [170, 187, 204, 221, 238, 255] = ''aa:bb:cc:dd:ee:ff''"
    by code_simp
  note t1 = mac_spellings_normalize_alike [of "''192.168.1.5''" "''   ''"
      "[170, 187, 204, 221, 238, 255]" "\<lambda>i. True" "\<lambda>i. True"]
  note t2 = mac_spellings_normalize_alike [of "''192.168.1.5''" "''   ''"
      "[170, 187, 204, 221, 238, 255]" "\<lambda>i. even i" "\<lambda>i. False"]
  from h s1 s2 s3 t1 t2 show ?thesis by blast
qed

text \<open>
  C5: On an empty command output list_arp_table returns the empty list and get_ip_from_mac
  returns \<open>None\<close> for every query.
\<close>

theorem empty_output:
  "list_arp_table [] = [] \<and> (\<forall>q. get_ip_from_mac [] q = None)"
  by (simp add: list_arp_table_def get_ip_from_mac_def splitlines_def)

text \<open>
  C6: list_arp_table returns one pair for each line that matches the pattern, in the order of
  the lines, and nothing for the other lines.
\<close>

theorem list_arp_table_one_pair_per_matching_line:
  "list_arp_table out =
     map (\<lambda>line. the (parse_line line))
       (filter (\<lambda>line. arp_search line \<noteq> None) (splitlines out))"
proof -
  have "List.map_filter parse_line ls =
      map (\<lambda>line. the (parse_line line)) (filter (\<lambda>line. arp_search line \<noteq> None) ls)" for ls
    by (induction ls) (auto simp add: List.map_filter_simps parse_line_def split: option.splits)
  then show ?thesis by (simp add: list_arp_table_parsed parsed_pairs_def)
qed

text \<open>
  An instance of C6: a Windows ARP table of five lines, three of which match.
\<close>

theorem list_arp_table_one_pair_per_matching_line_witness:
  "splitlines (''Interface: 192.168.1.10 --- 0xb'' @ [CHR 0x0D, CHR 0x0A] @
       ''  Internet Address      Physical Address      Type'' @ [CHR 0x0D, CHR 0x0A] @
       ''  192.168.1.1           AA-BB-cc-dd-ee-ff     dynamic'' @ [CHR 0x0A, CHR 0x0A] @
       ''  192.168.1.255         ff:ff:ff:ff:ff:ff     static'' @ [CHR 0x0A])
     = [''Interface: 192.168.1.10 --- 0xb'',
        ''  Internet Address      Physical Address      Type'',
        ''  192.168.1.1           AA-BB-cc-dd-ee-ff     dynamic'',
        '''',
        ''  192.168.1.255         ff:ff:ff:ff:ff:ff     static''] \<and>
   filter (\<lambda>line. arp_search line \<noteq> None)
       [''Interface: 192.168.1.10 --- 0xb'',
        ''  Internet Address      Physical Address      Type'',
        ''  192.168.1.1           AA-BB-cc-dd-ee-ff     dynamic'',
        '''',
        ''  192.168.1.255         ff:ff:ff:ff:ff:ff     static'']
     = [''Interface: 192.168.1.10 --- 0xb'',
        ''  192.168.1.1           AA-BB-cc-dd-ee-ff     dynamic'',
        ''  192.168.1.255         ff:ff:ff:ff:ff:ff     static''] \<and>
   list_arp_table (''Interface: 192.168.1.10 --- 0xb'' @ [CHR 0x0D, CHR 0x0A] @
       ''  Internet Address      Physical Address      Type'' @ [CHR 0x0D, CHR 0x0A] @
       ''  192.168.1.1           AA-BB-cc-dd-ee-ff     dynamic'' @ [CHR 0x0A, CHR 0x0A] @
       ''  192.168.1.255         ff:ff:ff:ff:ff:ff     static'' @ [CHR 0x0A])
     = [(''192.168.1.10'', '':::''),
        (''192.168.1.1'', ''aa:bb:cc:dd:ee:ff''),
        (''192.168.1.255'', ''ff:ff:ff:ff:ff:ff'')]"
proof -
  let ?l1 = "''Interface: 192.168.1.10 --- 0xb''"
  let ?l2 = "''  Internet Address      Physical Address      Type''"
  let ?l3 = "''  192.168.1.1           AA-BB-cc-dd-ee-ff     dynamic''"
  let ?l5 = "''  192.168.1.255         ff:ff:ff:ff:ff:ff     static''"
  let ?out = "?l1 @ [CHR 0x0D, CHR 0x0A] @ ?l2 @ [CHR 0x0D, CHR 0x0A] @ ?l3 @
      [CHR 0x0A, CHR 0x0A] @ ?l5 @ [CHR 0x0A]"
  have s: "splitlines ?out = [?l1, ?l2, ?l3, '''', ?l5]" by code_simp
  have f: "filter (\<lambda>line. arp_search line \<noteq> None) [?l1, ?l2, ?l3, '''', ?l5]
      = [?l1, ?l3, ?l5]" by code_simp
  have p: "map (\<lambda>line. the (parse_line line)) [?l1, ?l3, ?l5]
      = [(''192.168.1.10'', '':::''), (''192.168.1.1'', ''aa:bb:cc:dd:ee:ff''),
         (''192.168.1.255'', ''ff:ff:ff:ff:ff:ff'')]" by code_simp
  from list_arp_table_one_pair_per_matching_line [of ?out] s f p
  have "list_arp_table ?out
      = [(''192.168.1.10'', '':::''), (''192.168.1.1'', ''aa:bb:cc:dd:ee:ff''),
         (''192.168.1.255'', ''ff:ff:ff:ff:ff:ff'')]" by simp
  with s f show ?thesis by blast
qed

text \<open>
  C7: as stated (neither function ever raises, whatever the command writes) the claim fails:
  output that the codec of the locale rejects makes \<open>read\<close> raise
  \<open>UnicodeDecodeError\<close>, which reaches the caller. Here the codec is \<open>ascii\<close> and
  the output holds the byte 233.
\<close>

theorem undecodable_output_raises:
  "list_arp_table_cmd ascii_codec [73, 110, 116, 233] = Inl UnicodeDecodeError \<and>
   get_ip_from_mac_cmd ascii_codec [73, 110, 116, 233] ''00:11:22:33:44:55''
     = Inl UnicodeDecodeError"
  by code_simp

text \<open>
  C7: amended: for every command output that the codec decodes to text, both functions
  return a result and raise nothing; lines that do not match are skipped, so that with no
  matching line the results are the empty list and \<open>None\<close>, and taking a non-matching
  line out of the lines changes the result of neither loop. Output that the codec rejects
  raises \<open>UnicodeDecodeError\<close> in both functions.
\<close>

theorem decoded_output_never_raises:
  "(decode raw = Some out \<longrightarrow>
      list_arp_table_cmd decode raw = Inr (list_arp_table out) \<and>
      get_ip_from_mac_cmd decode raw q = Inr (get_ip_from_mac out q)) \<and>
   (decode raw = Some out \<and> (\<forall>line\<in>set (splitlines out). arp_search line = None) \<longrightarrow>
      list_arp_table_cmd decode raw = Inr [] \<and> get_ip_from_mac_cmd decode raw q = Inr None) \<and>
   (decode raw = None \<longrightarrow>
      list_arp_table_cmd decode raw = Inl UnicodeDecodeError \<and>
      get_ip_from_mac_cmd decode raw q = Inl UnicodeDecodeError) \<and>
   (arp_search line = None \<longrightarrow>
      collect_lines devices (before @ line # after) = collect_lines devices (before @ after) \<and>
      scan_lines target_mac (before @ line # after) = scan_lines target_mac (before @ after))"
proof (intro conjI impI)
  assume "decode raw = Some out"
  then show "list_arp_table_cmd decode raw = Inr (list_arp_table out)"
    "get_ip_from_mac_cmd decode raw q = Inr (get_ip_from_mac out q)"
    by (simp_all add: list_arp_table_cmd_def get_ip_from_mac_cmd_def popen_read_def)
next
  assume a: "decode raw = Some out \<and> (\<forall>line\<in>set (splitlines out). arp_search line = None)"
  then have "parsed_pairs out = []" by (simp add: parsed_pairs_def no_match_no_pairs)
  then have "list_arp_table out = []" "get_ip_from_mac out q = None"
    by (simp_all add: list_arp_table_parsed get_ip_lookup_parsed)
  with a show "list_arp_table_cmd decode raw = Inr []" "get_ip_from_mac_cmd decode raw q = Inr None"
    by (simp_all add: list_arp_table_cmd_def get_ip_from_mac_cmd_def popen_read_def)
next
  assume "decode raw = None"
  then show "list_arp_table_cmd decode raw = Inl UnicodeDecodeError"
    "get_ip_from_mac_cmd decode raw q = Inl UnicodeDecodeError"
    by (simp_all add: list_arp_table_cmd_def get_ip_from_mac_cmd_def popen_read_def)
next
  assume a: "arp_search line = None"
  then have "parse_line line = None" by (simp add: parse_line_def)
  then have "List.map_filter parse_line (before @ line # after)
      = List.map_filter parse_line (before @ after)"
    by (simp add: List.map_filter_def)
  then show "collect_lines devices (before @ line # after) = collect_lines devices (before @ after)"
    "scan_lines target_mac (before @ line # after) = scan_lines target_mac (before @ after)"
    by (simp_all add: collect_lines_eq scan_lines_eq)
qed

text \<open>An instance of C7 on a concrete output.\<close>

theorem decoded_output_never_raises_witness:
  "ascii_codec (map of_char (''Interface 0xb'' @ [CHR 0x0D, CHR 0x0A] @ ''1.2.3 aa-bb''))
     = Some (''Interface 0xb'' @ [CHR 0x0D, CHR 0x0A] @ ''1.2.3 aa-bb'') \<and>
   splitlines (''Interface 0xb'' @ [CHR 0x0D, CHR 0x0A] @ ''1.2.3 aa-bb'')
     = [''Interface 0xb'', ''1.2.3 aa-bb''] \<and>
   arp_search ''Interface 0xb'' = None \<and>
   arp_search ''1.2.3 aa-bb'' = None \<and>
   list_arp_table_cmd ascii_codec
       (map of_char (''Interface 0xb'' @ [CHR 0x0D, CHR 0x0A] @ ''1.2.3 aa-bb'')) = Inr [] \<and>
   get_ip_from_mac_cmd ascii_codec
       (map of_char (''Interface 0xb'' @ [CHR 0x0D, CHR 0x0A] @ ''1.2.3 aa-bb'')) ''aa-bb''
     = Inr None \<and>
   ascii_codec [233] = None \<and>
   list_arp_table_cmd ascii_codec [233] = Inl UnicodeDecodeError \<and>
   get_ip_from_mac_cmd ascii_codec [233] ''aa-bb'' = Inl UnicodeDecodeError \<and>
   collect_lines [] ([''1.2.3.4 aa''] @ ''1.2.3 aa-bb'' # [''5.6.7.8 bb''])
     = collect_lines [] ([''1.2.3.4 aa''] @ [''5.6.7.8 bb'']) \<and>
   scan_lines ''bb'' ([''1.2.3.4 aa''] @ ''1.2.3 aa-bb'' # [''5.6.7.8 bb''])
     = scan_lines ''bb'' ([''1.2.3.4 aa''] @ [''5.6.7.8 bb''])"
proof -
  let ?out = "''Interface 0xb'' @ [CHR 0x0D, CHR 0x0A] @ ''1.2.3 aa-bb''"
  have d: "ascii_codec (map of_char ?out) = Some ?out" by code_simp
  have s: "splitlines ?out = [''Interface 0xb'', ''1.2.3 aa-bb'']" by code_simp
  have h0: "arp_search ''Interface 0xb'' = None" by code_simp
  have h2: "arp_search ''1.2.3 aa-bb'' = None" by code_simp
  have n: "ascii_codec [233] = None" by code_simp
  from s h0 h2 have h1: "\<forall>line\<in>set (splitlines ?out). arp_search line = None" by simp
  note t1 = decoded_output_never_raises [where decode = ascii_codec and
      raw = "map of_char ?out" and out = ?out and q = "''aa-bb''" and
      line = "''1.2.3 aa-bb''" and devices = "[]" and before = "[''1.2.3.4 aa'']" and
      after = "[''5.6.7.8 bb'']" and target_mac = "''bb''"]
  note t2 = decoded_output_never_raises [where decode = ascii_codec and
      raw = "[233]" and q = "''aa-bb''"]
  from d s h0 h1 h2 n t1 t2 show ?thesis by blast
qed

text \<open>
  C8: The normalisation leaves every string in canonical form unchanged, and applying it twice
  is the same as applying it once.
\<close>

theorem normalize_mac_idempotent:
  "(canonical_mac s \<longrightarrow> normalize_mac s = s) \<and>
   normalize_mac (normalize_mac s) = normalize_mac s"
proof (intro conjI impI)
  assume c: "canonical_mac s"
  have "norm_char x = x" if "x \<in> set s" for x
  proof -
    from split_on_chars [OF that, of "\<lambda>c. c = CHR '':''"]
    have "x = CHR '':'' \<or> (\<exists>g\<in>set (split_on (\<lambda>c. c = CHR '':'') s). x \<in> set g)" .
    then show ?thesis
    proof
      assume "x = CHR '':''"
      then show ?thesis by (simp add: norm_char_colon)
    next
      assume "\<exists>g\<in>set (split_on (\<lambda>c. c = CHR '':'') s). x \<in> set g"
      with c have "is_lower_hex x" by (auto simp add: canonical_mac_def Let_def list_all_iff)
      then show ?thesis by (rule norm_char_lower_hex)
    qed
  qed
  then show "normalize_mac s = s" by (simp add: normalize_mac_map map_idI)
next
  show "normalize_mac (normalize_mac s) = normalize_mac s"
    by (simp add: normalize_mac_map norm_char_idem)
qed

text \<open>An instance of C8 on a concrete output.\<close>

theorem normalize_mac_idempotent_witness:
  "canonical_mac ''00:11:22:aa:bb:ff'' \<and> normalize_mac ''00:11:22:aa:bb:ff'' = ''00:11:22:aa:bb:ff''"
proof -
  have c: "canonical_mac ''00:11:22:aa:bb:ff''" by code_simp
  with normalize_mac_idempotent [of "''00:11:22:aa:bb:ff''"] show ?thesis by blast
qed

text \<open>
  C9: get_ip_from_mac is the lookup, in the result of list_arp_table on the same output, of
  the first pair whose MAC equals the normalised query.
\<close>

theorem get_ip_from_mac_is_lookup:
  "get_ip_from_mac out q = lookup_first (list_arp_table out) (normalize_mac q)"
  by (simp add: get_ip_lookup_parsed list_arp_table_parsed)

text \<open>
  C10: The IP of every pair returned by list_arp_table, and every IP returned by
  get_ip_from_mac, is a dotted quad: four non-empty runs of decimal digits separated by dots.
  The runs are not bounded: any four non-empty runs of digits are accepted as an IP.
\<close>

theorem ip_is_dotted_quad:
  "((ip, mac) \<in> set (list_arp_table out) \<longrightarrow> dotted_quad ip) \<and>
   (get_ip_from_mac out q = Some ip \<longrightarrow> dotted_quad ip) \<and>
   (digits d1 \<and> digits d2 \<and> digits d3 \<and> digits d4 \<longrightarrow>
      list_arp_table (quad d1 d2 d3 d4 @ '' aa'') = [(quad d1 d2 d3 d4, ''aa'')])"
proof (intro conjI impI)
  have mem: "dotted_quad a" if "(a, m) \<in> set (parsed_pairs out)" for a m
  proof -
    from parsed_pairs_memD [OF that] obtain line tok where
      "arp_search line = Some (a, tok)" by blast
    from arp_search_SomeD [OF this] show ?thesis using dotted_quad_quad by blast
  qed
  show "dotted_quad ip" if "(ip, mac) \<in> set (list_arp_table out)"
    using that mem by (simp add: list_arp_table_parsed)
  show "dotted_quad ip" if "get_ip_from_mac out q = Some ip"
    using lookup_first_SomeD [OF that [unfolded get_ip_lookup_parsed]] mem by blast
  show "list_arp_table (quad d1 d2 d3 d4 @ '' aa'') = [(quad d1 d2 d3 d4, ''aa'')]"
    if "digits d1 \<and> digits d2 \<and> digits d3 \<and> digits d4"
  proof -
    have "list_arp_table (quad d1 d2 d3 d4 @ '' '' @ ''aa'')
        = [(quad d1 d2 d3 d4, normalize_mac ''aa'')]"
      by (rule list_arp_table_single_line)
        (use that in \<open>simp_all add: is_blank_def is_space_def is_linebreak_def is_mac_char_def is_word_def\<close>)
    moreover have "normalize_mac ''aa'' = ''aa''"
      by (simp add: normalize_mac_def lower_def replace_dash_def lower_char_def)
    ultimately show ?thesis by simp
  qed
qed

text \<open>An instance of C10 on a concrete output.\<close>

theorem ip_is_dotted_quad_witness:
  "(''999.1234567.0.256'', ''aa'') \<in> set (list_arp_table ''999.1234567.0.256 aa'') \<and>
   dotted_quad ''999.1234567.0.256'' \<and>
   get_ip_from_mac ''999.1234567.0.256 aa'' ''AA'' = Some ''999.1234567.0.256'' \<and>
   digits ''999'' \<and> digits ''1234567'' \<and> digits ''0'' \<and> digits ''256'' \<and>
   list_arp_table (quad ''999'' ''1234567'' ''0'' ''256'' @ '' aa'')
     = [(quad ''999'' ''1234567'' ''0'' ''256'', ''aa'')]"
proof -
  have d: "digits ''999'' \<and> digits ''1234567'' \<and> digits ''0'' \<and> digits ''256''"
    by (simp add: digits_def is_digit_def)
  have l: "(''999.1234567.0.256'', ''aa'') \<in> set (list_arp_table ''999.1234567.0.256 aa'')"
    by code_simp
  have g: "get_ip_from_mac ''999.1234567.0.256 aa'' ''AA'' = Some ''999.1234567.0.256''"
    by code_simp
  from ip_is_dotted_quad [of "''999.1234567.0.256''" "''aa''" "''999.1234567.0.256 aa''"
      "''AA''" "''999''" "''1234567''" "''0''" "''256''"] d l g
  show ?thesis by blast
qed

end
